theory Spec2Isabelle
  imports Main "HOL-Library.Word"
begin

unbundle bit_operations_syntax

section \<open>LZSS compressor (lzss\_comp.c): data model\<close>

text \<open>
  The source works on two file-scope arrays, \<^verbatim>\<open>LZSS_window[LZSS_WINDOW_SIZE]\<close> (bytes) and
  \<^verbatim>\<open>tree[LZSS_WINDOW_SIZE + 1]\<close> (records of three \<^verbatim>\<open>Uint16_T\<close> indices).  Both are modelled as
  explicit stores (functions from index to content) that every operation takes and returns.
  Indices and counters are natural numbers; the only arithmetic the source performs on them is
  \<^verbatim>\<open>+ i\<close> with \<^verbatim>\<open>i \<le> 17\<close> under the window mask, \<^verbatim>\<open>aheadBytes++\<close> below 17 and
  \<^verbatim>\<open>aheadBytes--\<close>, whose 8-bit wrap-around is written out.  Bytes are 8-bit words.
\<close>

type_synonym byte = "8 word"

definition LZSS_INDEX_BIT_COUNT :: nat where
  "LZSS_INDEX_BIT_COUNT = 10"

definition LZSS_LENGTH_BIT_COUNT :: nat where
  "LZSS_LENGTH_BIT_COUNT = 4"

definition LZSS_WINDOW_SIZE :: nat where
  "LZSS_WINDOW_SIZE = push_bit LZSS_INDEX_BIT_COUNT 1"

definition LZSS_BREAK_EVEN :: nat where
  "LZSS_BREAK_EVEN = (1 + LZSS_INDEX_BIT_COUNT + LZSS_LENGTH_BIT_COUNT) div 9"

definition LZSS_END_OF_STREAM :: nat where
  "LZSS_END_OF_STREAM = 0"

definition LZSS_RAW_LOOK_AHEAD_SIZE :: nat where
  "LZSS_RAW_LOOK_AHEAD_SIZE = push_bit LZSS_LENGTH_BIT_COUNT 1"

text \<open>The macro is cut off in the source after \<^verbatim>\<open>LZSS_BREAK_\<close>; it is completed to
  \<^verbatim>\<open>LZSS_RAW_LOOK_AHEAD_SIZE + LZSS_BREAK_EVEN\<close>.\<close>

definition LZSS_LOOK_AHEAD_SIZE :: nat where
  "LZSS_LOOK_AHEAD_SIZE = LZSS_RAW_LOOK_AHEAD_SIZE + LZSS_BREAK_EVEN"

definition LZSS_TREE_ROOT :: nat where
  "LZSS_TREE_ROOT = LZSS_WINDOW_SIZE"

definition UNUSED :: nat where
  "UNUSED = 0"

text \<open>The macro is cut off in the source after \<^verbatim>\<open>( LZSS_WINDOW_SIZE - 1\<close>; it is the mask
  \<^verbatim>\<open>(a) & (LZSS_WINDOW_SIZE - 1)\<close>.\<close>

definition LZSS_MOD_WINDOW :: "nat \<Rightarrow> nat" where
  "LZSS_MOD_WINDOW a = a AND (LZSS_WINDOW_SIZE - 1)"

record node =
  parent :: nat
  smallChild :: nat
  largeChild :: nat

type_synonym tree_T = "nat \<Rightarrow> node"
type_synonym window_T = "nat \<Rightarrow> byte"

definition unused_node :: node where
  "unused_node = \<lparr>parent = UNUSED, smallChild = UNUSED, largeChild = UNUSED\<rparr>"

section \<open>Tree operations\<close>

definition LZSS_InitTree :: "tree_T \<Rightarrow> nat \<Rightarrow> tree_T" where
  "LZSS_InitTree t rootChild =
     (let t1 = t(LZSS_TREE_ROOT :=
                   \<lparr>parent = UNUSED, smallChild = UNUSED, largeChild = rootChild\<rparr>);
          t2 = t1(rootChild :=
                   \<lparr>parent = LZSS_TREE_ROOT, smallChild = UNUSED, largeChild = UNUSED\<rparr>)
      in t2)"

definition LZSS_ContractNode :: "tree_T \<Rightarrow> nat \<Rightarrow> nat \<Rightarrow> tree_T" where
  "LZSS_ContractNode t oldNode newNode =
     (let t1 = t(newNode := (t newNode)\<lparr>parent := parent (t oldNode)\<rparr>);
          p = parent (t1 oldNode);
          t2 = (if largeChild (t1 p) = oldNode
                then t1(p := (t1 p)\<lparr>largeChild := newNode\<rparr>)
                else t1(p := (t1 p)\<lparr>smallChild := newNode\<rparr>));
          t3 = t2(oldNode := unused_node)
      in t3)"

definition LZSS_ReplaceNode :: "tree_T \<Rightarrow> nat \<Rightarrow> nat \<Rightarrow> tree_T" where
  "LZSS_ReplaceNode t oldNode newNode =
     (let p = parent (t oldNode);
          t1 = (if smallChild (t p) = oldNode
                then t(p := (t p)\<lparr>smallChild := newNode\<rparr>)
                else t(p := (t p)\<lparr>largeChild := newNode\<rparr>));
          t2 = t1(newNode := t1 oldNode);
          s = smallChild (t2 newNode);
          t3 = t2(s := (t2 s)\<lparr>parent := newNode\<rparr>);
          l = largeChild (t3 newNode);
          t4 = t3(l := (t3 l)\<lparr>parent := newNode\<rparr>);
          t5 = t4(oldNode := unused_node)
      in t5)"

text \<open>The \<^verbatim>\<open>while\<close> loop of \<^verbatim>\<open>LZSS_FindNextNode\<close> follows \<^verbatim>\<open>largeChild\<close> links until one is
  \<^verbatim>\<open>UNUSED\<close>; on a cyclic store it does not return, which is the value \<open>None\<close>.\<close>

partial_function (option) LZSS_FindNextNode_loop :: "tree_T \<Rightarrow> nat \<Rightarrow> nat option" where
  "LZSS_FindNextNode_loop t next =
     (if largeChild (t next) \<noteq> UNUSED
      then LZSS_FindNextNode_loop t (largeChild (t next))
      else Some next)"

declare LZSS_FindNextNode_loop.simps [code]

definition LZSS_FindNextNode :: "tree_T \<Rightarrow> nat \<Rightarrow> nat option" where
  "LZSS_FindNextNode t n = LZSS_FindNextNode_loop t (smallChild (t n))"

definition LZSS_DeleteNode :: "tree_T \<Rightarrow> nat \<Rightarrow> tree_T option" where
  "LZSS_DeleteNode t n =
     (if largeChild (t n) = UNUSED
      then Some (LZSS_ContractNode t n (smallChild (t n)))
      else if smallChild (t n) = UNUSED
      then Some (LZSS_ContractNode t n (largeChild (t n)))
      else (case LZSS_FindNextNode t n of
              None \<Rightarrow> None
            | Some replNode \<Rightarrow>
                Some (LZSS_ReplaceNode
                        (LZSS_ContractNode t replNode (smallChild (t replNode))) n replNode)))"

text \<open>The inner comparison loop of \<^verbatim>\<open>LZSS_AddNode\<close>: it returns the final \<^verbatim>\<open>i\<close> and
  \<^verbatim>\<open>delta\<close>.  \<^verbatim>\<open>delta\<close> is the \<^verbatim>\<open>Int16_T\<close> difference of two bytes.\<close>

function LZSS_compare :: "window_T \<Rightarrow> nat \<Rightarrow> nat \<Rightarrow> nat \<Rightarrow> int \<Rightarrow> nat \<times> int" where
  "LZSS_compare w newNode testNode i delta =
     (if i < LZSS_LOOK_AHEAD_SIZE \<and> delta = 0
      then LZSS_compare w newNode testNode (i + 1)
             (uint (w (LZSS_MOD_WINDOW (newNode + i))) -
              uint (w (LZSS_MOD_WINDOW (testNode + i))))
      else (i, delta))"
  by pat_completeness auto
termination
  by (relation "measure (\<lambda>(w, n, t, i, d). LZSS_LOOK_AHEAD_SIZE - i)") auto

declare LZSS_compare.simps [simp del]

text \<open>The outer loop of \<^verbatim>\<open>LZSS_AddNode\<close>.  Besides the tree, the match length and the match
  position it returns the list of the test nodes it compared against, each with its match
  length \<^verbatim>\<open>i\<close>; this list is a specification-only record of the descent and does not influence
  the other components.\<close>

partial_function (option) LZSS_AddNode_loop ::
  "window_T \<Rightarrow> nat \<Rightarrow> tree_T \<Rightarrow> nat \<Rightarrow> nat \<Rightarrow> nat \<Rightarrow> (nat \<times> nat) list
     \<Rightarrow> (tree_T \<times> nat \<times> nat \<times> (nat \<times> nat) list) option" where
  "LZSS_AddNode_loop w newNode t testNode matchLen matchPos path =
     (let c = LZSS_compare w newNode testNode 0 0;
          delta = snd c;
          i = (if delta \<noteq> 0 then fst c - 1 else fst c);
          path' = path @ [(testNode, i)];
          matchLen' = (if i \<ge> matchLen then i else matchLen);
          matchPos' = (if i \<ge> matchLen then testNode else matchPos)
      in if i \<ge> matchLen \<and> matchLen' \<ge> LZSS_LOOK_AHEAD_SIZE
         then Some (LZSS_ReplaceNode t testNode newNode, matchLen', matchPos', path')
         else if delta \<ge> 0
         then (if largeChild (t testNode) = UNUSED
               then Some ((t(testNode := (t testNode)\<lparr>largeChild := newNode\<rparr>))
                            (newNode := \<lparr>parent = testNode, smallChild = UNUSED,
                                         largeChild = UNUSED\<rparr>),
                          matchLen', matchPos', path')
               else LZSS_AddNode_loop w newNode t (largeChild (t testNode))
                      matchLen' matchPos' path')
         else (if smallChild (t testNode) = UNUSED
               then Some ((t(testNode := (t testNode)\<lparr>smallChild := newNode\<rparr>))
                            (newNode := \<lparr>parent = testNode, smallChild = UNUSED,
                                         largeChild = UNUSED\<rparr>),
                          matchLen', matchPos', path')
               else LZSS_AddNode_loop w newNode t (smallChild (t testNode))
                      matchLen' matchPos' path'))"

declare LZSS_AddNode_loop.simps [code]

definition LZSS_AddNode ::
  "window_T \<Rightarrow> tree_T \<Rightarrow> nat \<Rightarrow> nat \<Rightarrow> (tree_T \<times> nat \<times> nat \<times> (nat \<times> nat) list) option" where
  "LZSS_AddNode w t newNode matchPos =
     (if newNode = LZSS_END_OF_STREAM then Some (t, 0, matchPos, [])
      else LZSS_AddNode_loop w newNode t (largeChild (t LZSS_TREE_ROOT)) 0 matchPos [])"

section \<open>The byte source and the bit sink\<close>

text \<open>Modelled from the spec: \<^verbatim>\<open>InputByte\<close> (declared in the missing \<^verbatim>\<open>bitio.h\<close>) yields one
  byte per call or the end-of-input marker, and keeps yielding the marker when called past the
  end.  The input buffer is the list of bytes not yet read.\<close>

definition InputByte :: "byte list \<Rightarrow> byte option \<times> byte list" where
  "InputByte buf = (case buf of [] \<Rightarrow> (None, []) | b # bs \<Rightarrow> (Some b, bs))"

text \<open>Modelled from the spec: \<^verbatim>\<open>OutputBit\<close> appends one bit and \<^verbatim>\<open>OutputBits\<close> appends the
  \<^verbatim>\<open>numberOfBits\<close> low-order bits of \<^verbatim>\<open>dataValue\<close>, most significant first (both are declared
  in the missing \<^verbatim>\<open>bitio.h\<close>).\<close>

definition OutputBit :: "bool list \<Rightarrow> nat \<Rightarrow> bool list" where
  "OutputBit buf bitVal = buf @ [bitVal \<noteq> 0]"

definition OutputBits :: "bool list \<Rightarrow> nat \<Rightarrow> nat \<Rightarrow> bool list" where
  "OutputBits buf dataValue numberOfBits =
     buf @ map (\<lambda>k. bit dataValue k) (rev [0..<numberOfBits])"

text \<open>The driver has three emission sites.  Each is one value of \<open>token\<close>; \<open>token_bits\<close>
  is the sequence of sink calls the source makes at that site.\<close>

datatype token = Literal byte | BackRef nat nat | EndMark



section \<open>The encoder driver\<close>

text \<open>
  The state of \<^verbatim>\<open>LZSS_CompressData\<close>: the two arrays, the two buffers and the local variables
  that live across loop iterations.  The last four fields are specification-only: \<open>written\<close>
  is the set of window slots stored during the run, \<open>staleCmp\<close> and \<open>staleLit\<close> list the
  slots that the comparisons of \<^verbatim>\<open>LZSS_AddNode\<close> and the literal emission read while not yet
  in \<open>written\<close>, and \<open>delLog\<close> lists, for every call of \<^verbatim>\<open>LZSS_DeleteNode\<close>, the position
  passed and its tree record at the call.  No other field depends on them.
\<close>

record lzss =
  LZSS_window :: window_T
  tree :: tree_T
  inBuf :: "byte list"
  outBuf :: "token list"
  aheadBytes :: nat
  winPos :: nat
  matchLen :: nat
  matchPos :: nat
  written :: "nat set"
  staleCmp :: "nat list"
  staleLit :: "nat list"
  delLog :: "(nat \<times> node) list"

text \<open>The window slots read by the comparison loop for one test node: the loop ran
  \<open>min (i + 1) LZSS_LOOK_AHEAD_SIZE\<close> times when it stopped with match length \<open>i\<close>.\<close>

definition compare_slots :: "nat \<Rightarrow> (nat \<times> nat) list \<Rightarrow> nat list" where
  "compare_slots newNode path =
     concat (map (\<lambda>(testNode, i).
        concat (map (\<lambda>k. [LZSS_MOD_WINDOW (newNode + k), LZSS_MOD_WINDOW (testNode + k)])
                 [0..<min (i + 1) LZSS_LOOK_AHEAD_SIZE])) path)"

text \<open>Filling the look-ahead buffer (the first \<^verbatim>\<open>while\<close> loop of \<^verbatim>\<open>LZSS_CompressData\<close>).\<close>

function LZSS_fill :: "lzss \<Rightarrow> bool \<Rightarrow> lzss" where
  "LZSS_fill st eosReached =
     (if aheadBytes st < LZSS_LOOK_AHEAD_SIZE \<and> \<not> eosReached
      then (case fst (InputByte (inBuf st)) of
              None \<Rightarrow> LZSS_fill (st\<lparr>inBuf := snd (InputByte (inBuf st))\<rparr>) True
            | Some b \<Rightarrow>
                LZSS_fill
                  (st\<lparr>inBuf := snd (InputByte (inBuf st)),
                      LZSS_window := (LZSS_window st)(winPos st + aheadBytes st := b),
                      aheadBytes := aheadBytes st + 1,
                      written := insert (winPos st + aheadBytes st) (written st)\<rparr>)
                  False)
      else st)"
  by pat_completeness auto
termination
  by (relation "measure (\<lambda>(st, e). 2 * (LZSS_LOOK_AHEAD_SIZE - aheadBytes st) + (if e then 0 else 1))")
     auto

declare LZSS_fill.simps [simp del]

text \<open>One iteration of the \<^verbatim>\<open>for\<close> loop of the driver.  \<^verbatim>\<open>aheadBytes--\<close> is an 8-bit
  decrement.\<close>

definition LZSS_advance :: "lzss \<Rightarrow> lzss option" where
  "LZSS_advance st =
     (let d = LZSS_MOD_WINDOW (winPos st + LZSS_LOOK_AHEAD_SIZE) in
      case LZSS_DeleteNode (tree st) d of
        None \<Rightarrow> None
      | Some t1 \<Rightarrow>
          (let st1 = st\<lparr>tree := t1, delLog := delLog st @ [(d, tree st d)]\<rparr>;
               inByte = fst (InputByte (inBuf st1));
               st2 = (case inByte of
                        None \<Rightarrow> st1\<lparr>inBuf := snd (InputByte (inBuf st1)),
                                   aheadBytes := (aheadBytes st1 + 255) mod 256\<rparr>
                      | Some b \<Rightarrow> st1\<lparr>inBuf := snd (InputByte (inBuf st1)),
                                     LZSS_window := (LZSS_window st1)(d := b),
                                     written := insert d (written st1)\<rparr>);
               st3 = st2\<lparr>winPos := LZSS_MOD_WINDOW (winPos st2 + 1)\<rparr>
           in if aheadBytes st3 \<noteq> 0
              then (case LZSS_AddNode (LZSS_window st3) (tree st3) (winPos st3) (matchPos st3) of
                      None \<Rightarrow> None
                    | Some r \<Rightarrow>
                        Some (st3\<lparr>tree := fst r, matchLen := fst (snd r),
                                  matchPos := fst (snd (snd r)),
                                  staleCmp := staleCmp st3 @
                                    filter (\<lambda>s. s \<notin> written st3)
                                      (compare_slots (winPos st3) (snd (snd (snd r))))\<rparr>))
              else Some st3))"

function LZSS_advance_loop :: "nat \<Rightarrow> nat \<Rightarrow> lzss \<Rightarrow> lzss option" where
  "LZSS_advance_loop i replCnt st =
     (if i < replCnt
      then (case LZSS_advance st of
              None \<Rightarrow> None
            | Some st' \<Rightarrow> LZSS_advance_loop (i + 1) replCnt st')
      else Some st)"
  by pat_completeness auto
termination
  by (relation "measure (\<lambda>(i, replCnt, st). replCnt - i)") auto

declare LZSS_advance_loop.simps [simp del]

text \<open>The body of the main \<^verbatim>\<open>while\<close> loop: clamp the match length, emit one record, advance.\<close>

definition LZSS_main_step :: "lzss \<Rightarrow> lzss option" where
  "LZSS_main_step st =
     (let st1 = (if matchLen st > aheadBytes st then st\<lparr>matchLen := aheadBytes st\<rparr> else st)
      in if matchLen st1 \<le> LZSS_BREAK_EVEN
         then LZSS_advance_loop 0 1
                (st1\<lparr>outBuf := outBuf st1 @ [Literal (LZSS_window st1 (winPos st1))],
                     staleLit := staleLit st1 @
                       (if winPos st1 \<in> written st1 then [] else [winPos st1])\<rparr>)
         else LZSS_advance_loop 0 (matchLen st1)
                (st1\<lparr>outBuf := outBuf st1 @ [BackRef (matchPos st1) (matchLen st1)]\<rparr>))"

partial_function (option) LZSS_main_loop :: "lzss \<Rightarrow> lzss option" where
  "LZSS_main_loop st =
     (if aheadBytes st > 0
      then (case LZSS_main_step st of
              None \<Rightarrow> None
            | Some st' \<Rightarrow> LZSS_main_loop st')
      else Some st)"

declare LZSS_main_loop.simps [code]

text \<open>The state at entry: both arrays are file-scope objects.  The tree starts with every link
  \<^verbatim>\<open>UNUSED\<close> (static initialisation); the initial window contents \<open>w0\<close> are left open.\<close>

definition LZSS_start :: "window_T \<Rightarrow> byte list \<Rightarrow> lzss" where
  "LZSS_start w0 input =
     \<lparr>LZSS_window = w0, tree = (\<lambda>_. unused_node), inBuf = input, outBuf = [],
      aheadBytes = 0, winPos = 1, matchLen = 0, matchPos = 0,
      written = {}, staleCmp = [], staleLit = [], delLog = []\<rparr>"

definition LZSS_primed :: "window_T \<Rightarrow> byte list \<Rightarrow> lzss" where
  "LZSS_primed w0 input =
     (let st = LZSS_fill (LZSS_start w0 input) False
      in st\<lparr>tree := LZSS_InitTree (tree st) (winPos st)\<rparr>)"

definition LZSS_CompressData :: "window_T \<Rightarrow> byte list \<Rightarrow> lzss option" where
  "LZSS_CompressData w0 input =
     (case LZSS_main_loop (LZSS_primed w0 input) of
        None \<Rightarrow> None
      | Some st \<Rightarrow> Some (st\<lparr>outBuf := outBuf st @ [EndMark]\<rparr>))"


section \<open>Specification predicates\<close>






definition cmp_len :: "window_T \<Rightarrow> nat \<Rightarrow> nat \<Rightarrow> nat" where
  "cmp_len w newNode testNode =
     (let c = LZSS_compare w newNode testNode 0 0
      in if snd c \<noteq> 0 then fst c - 1 else fst c)"

definition same_at :: "window_T \<Rightarrow> nat \<Rightarrow> nat \<Rightarrow> nat \<Rightarrow> bool" where
  "same_at w a b k \<longleftrightarrow> w (LZSS_MOD_WINDOW (a + k)) = w (LZSS_MOD_WINDOW (b + k))"

definition insert_large :: "tree_T \<Rightarrow> nat \<Rightarrow> nat \<Rightarrow> tree_T" where
  "insert_large t x new = (t(x := (t x)\<lparr>largeChild := new\<rparr>))
                   (new := \<lparr>parent = x, smallChild = UNUSED, largeChild = UNUSED\<rparr>)"

definition insert_small :: "tree_T \<Rightarrow> nat \<Rightarrow> nat \<Rightarrow> tree_T" where
  "insert_small t x new = (t(x := (t x)\<lparr>smallChild := new\<rparr>))
                   (new := \<lparr>parent = x, smallChild = UNUSED, largeChild = UNUSED\<rparr>)"

definition best :: "nat \<times> nat \<Rightarrow> nat \<times> nat \<Rightarrow> nat \<times> nat" where
  "best m e = (if snd e \<ge> fst m then (snd e, fst e) else m)"







text \<open>A window whose slots all hold zero, as static storage does at program start; it is the
  initial window of the concrete runs below.\<close>

definition zero_window :: window_T where
  "zero_window = (\<lambda>_. 0)"



text \<open>A concrete window and tree for an instance of the tie-break: the window holds the bytes
  5, 7, 6 in slots 1 to 3, and the tree holds the positions 1 and 2.\<close>

definition tie_window :: window_T where
  "tie_window = zero_window(1 := 5, 2 := 7, 3 := 6)"

definition tie_tree :: tree_T where
  "tie_tree = fst (the (LZSS_AddNode tie_window (LZSS_InitTree (\<lambda>_. unused_node) 1) 2 0))"

text \<open>The state after \<open>k\<close> iterations of the main loop (\<open>None\<close> when the loop has ended
  before, or an iteration does not return).\<close>

fun LZSS_after :: "nat \<Rightarrow> lzss \<Rightarrow> lzss option" where
  "LZSS_after 0 st = Some st"
| "LZSS_after (Suc k) st =
     (if aheadBytes st > 0
      then (case LZSS_main_step st of None \<Rightarrow> None | Some st' \<Rightarrow> LZSS_after k st')
      else None)"






section \<open>Properties of the tree operations\<close>

lemma WINDOW_SIZE_val: "LZSS_WINDOW_SIZE = 1024"
  by (simp add: LZSS_WINDOW_SIZE_def LZSS_INDEX_BIT_COUNT_def)

lemma LOOK_AHEAD_val: "LZSS_LOOK_AHEAD_SIZE = 17"
  by (simp add: LZSS_LOOK_AHEAD_SIZE_def LZSS_RAW_LOOK_AHEAD_SIZE_def LZSS_BREAK_EVEN_def
      LZSS_LENGTH_BIT_COUNT_def LZSS_INDEX_BIT_COUNT_def)

lemma BREAK_EVEN_val: "LZSS_BREAK_EVEN = 1"
  by (simp add: LZSS_BREAK_EVEN_def LZSS_LENGTH_BIT_COUNT_def LZSS_INDEX_BIT_COUNT_def)

lemma TREE_ROOT_val: "LZSS_TREE_ROOT = 1024"
  by (simp add: LZSS_TREE_ROOT_def WINDOW_SIZE_val)

lemma MOD_WINDOW_mod: "LZSS_MOD_WINDOW a = a mod 1024"
proof -
  have "a AND (1024 - 1) = a AND mask 10" by (simp add: mask_eq_exp_minus_1)
  then show ?thesis
    by (simp add: LZSS_MOD_WINDOW_def WINDOW_SIZE_val take_bit_eq_mask [symmetric] take_bit_eq_mod)
qed




























lemma compare_inv:
  "i \<le> 17 \<Longrightarrow> (d = 0 \<longrightarrow> (\<forall>k<i. same_at w n t k)) \<Longrightarrow>
   (d \<noteq> 0 \<longrightarrow> 0 < i \<and> (\<forall>k<i - 1. same_at w n t k) \<and> \<not> same_at w n t (i - 1)) \<Longrightarrow>
   LZSS_compare w n t i d = (i', d') \<Longrightarrow>
   i' \<le> 17 \<and> i \<le> i' \<and> (d' = 0 \<longrightarrow> i' = 17 \<and> (\<forall>k<17. same_at w n t k)) \<and>
   (d' \<noteq> 0 \<longrightarrow> 0 < i' \<and> (\<forall>k<i' - 1. same_at w n t k) \<and> \<not> same_at w n t (i' - 1))"
proof (induction w n t i d rule: LZSS_compare.induct)
  case (1 w newNode testNode i delta)
  show ?case
  proof (cases "i < LZSS_LOOK_AHEAD_SIZE \<and> delta = 0")
    case True
    define d1 where "d1 = uint (w (LZSS_MOD_WINDOW (newNode + i))) -
              uint (w (LZSS_MOD_WINDOW (testNode + i)))"
    have eq: "d1 = 0 \<longleftrightarrow> same_at w newNode testNode i"
      by (auto simp: d1_def same_at_def word_uint_eq_iff)
    have rec: "LZSS_compare w newNode testNode (i + 1) d1 = (i', d')"
      using "1.prems"(4) True by (subst (asm) LZSS_compare.simps) (simp add: d1_def)
    have "i' \<le> 17 \<and> i + 1 \<le> i' \<and> (d' = 0 \<longrightarrow> i' = 17 \<and> (\<forall>k<17. same_at w newNode testNode k)) \<and>
      (d' \<noteq> 0 \<longrightarrow> 0 < i' \<and> (\<forall>k<i' - 1. same_at w newNode testNode k) \<and>
         \<not> same_at w newNode testNode (i' - 1))"
    proof (rule "1.IH" [OF True _ _ _ rec [unfolded d1_def]])
      show "i + 1 \<le> 17" using True by (simp add: LOOK_AHEAD_val)
      show "uint (w (LZSS_MOD_WINDOW (newNode + i))) - uint (w (LZSS_MOD_WINDOW (testNode + i))) = 0 \<longrightarrow>
            (\<forall>k<i + 1. same_at w newNode testNode k)"
        using "1.prems"(2) True eq by (auto simp: d1_def less_Suc_eq)
      show "uint (w (LZSS_MOD_WINDOW (newNode + i))) - uint (w (LZSS_MOD_WINDOW (testNode + i))) \<noteq> 0 \<longrightarrow>
            0 < i + 1 \<and> (\<forall>k<i + 1 - 1. same_at w newNode testNode k) \<and>
            \<not> same_at w newNode testNode (i + 1 - 1)"
        using "1.prems"(2) True eq by (auto simp: d1_def)
    qed
    then show ?thesis by auto
  next
    case False
    then have "i' = i" "d' = delta"
      using "1.prems"(4) by (subst (asm) LZSS_compare.simps, simp)+
    then show ?thesis using "1.prems"(1,2,3) False by (auto simp: LOOK_AHEAD_val)
  qed
qed

lemma cmp_len_le: "cmp_len w n t \<le> 17"
  and cmp_len_same: "k < cmp_len w n t \<Longrightarrow> same_at w n t k"
  and cmp_len_max: "cmp_len w n t < 17 \<Longrightarrow> \<not> same_at w n t (cmp_len w n t)"
  and cmp_zero: "snd (LZSS_compare w n t 0 0) = 0 \<Longrightarrow> cmp_len w n t = 17"
proof -
  obtain i' d' where c: "LZSS_compare w n t 0 0 = (i', d')" by (cases "LZSS_compare w n t 0 0")
  note I = compare_inv [OF _ _ _ c, simplified]
  show "cmp_len w n t \<le> 17" using I c by (auto simp: cmp_len_def)
  show "k < cmp_len w n t \<Longrightarrow> same_at w n t k" using I c by (auto simp: cmp_len_def split: if_splits)
  show "cmp_len w n t < 17 \<Longrightarrow> \<not> same_at w n t (cmp_len w n t)"
    using I c by (auto simp: cmp_len_def split: if_splits)
  show "snd (LZSS_compare w n t 0 0) = 0 \<Longrightarrow> cmp_len w n t = 17"
    using I c by (auto simp: cmp_len_def)
qed



lemma AddNode_loop_facts:
  assumes "LZSS_AddNode_loop w new t x ml mp path = Some r"
  shows "ml \<le> 17 \<longrightarrow> (\<forall>k<ml. same_at w new mp k) \<longrightarrow>
         fst (snd r) \<le> 17 \<and> (\<forall>k<fst (snd r). same_at w new (fst (snd (snd r))) k) \<and>
         (\<exists>ext. ext \<noteq> [] \<and> snd (snd (snd r)) = path @ ext \<and>
             (fst (snd r), fst (snd (snd r))) = foldl best (ml, mp) ext \<and>
             (\<forall>e \<in> set ext. snd e = cmp_len w new (fst e)))"
  using assms
proof (rule LZSS_AddNode_loop.raw_induct [rotated], goal_cases)
  case (1 f w new t x ml mp path r)
  define i where "i = cmp_len w new x"
  define delta where "delta = snd (LZSS_compare w new x 0 0)"
  define ml1 where "ml1 = (if ml \<le> i then i else ml)"
  define mp1 where "mp1 = (if ml \<le> i then x else mp)"
  have b: "best (ml, mp) (x, i) = (ml1, mp1)" by (simp add: best_def ml1_def mp1_def)
  have i17: "i \<le> 17" by (simp add: i_def cmp_len_le)
  have E: "(if ml \<le> i \<and> 17 \<le> ml1 then Some (LZSS_ReplaceNode t x new, ml1, mp1, path @ [(x, i)])
     else if 0 \<le> delta then
       (if largeChild (t x) = 0 then Some (insert_large t x new, ml1, mp1, path @ [(x, i)])
        else f w new t (largeChild (t x)) ml1 mp1 (path @ [(x, i)]))
     else
       (if smallChild (t x) = 0 then Some (insert_small t x new, ml1, mp1, path @ [(x, i)])
        else f w new t (smallChild (t x)) ml1 mp1 (path @ [(x, i)]))) = Some r"
    using "1"(2)
    unfolding Let_def cmp_len_def LOOK_AHEAD_val UNUSED_def insert_large_def insert_small_def
        i_def delta_def ml1_def mp1_def
    by simp
  show ?case
  proof (intro impI)
    assume ml: "ml \<le> 17" and same: "\<forall>k<ml. same_at w new mp k"
    define Q where "Q = (\<lambda>r :: tree_T \<times> nat \<times> nat \<times> (nat \<times> nat) list.
         fst (snd r) \<le> 17 \<and> (\<forall>k<fst (snd r). same_at w new (fst (snd (snd r))) k) \<and>
         (\<exists>ext. ext \<noteq> [] \<and> snd (snd (snd r)) = path @ ext \<and>
             (fst (snd r), fst (snd (snd r))) = foldl best (ml, mp) ext \<and>
             (\<forall>e \<in> set ext. snd e = cmp_len w new (fst e))))"
    have ml1: "ml1 \<le> 17" using ml i17 by (simp add: ml1_def)
    have same1: "\<forall>k<ml1. same_at w new mp1 k"
      using same cmp_len_same [of _ w new x] by (auto simp: ml1_def mp1_def i_def)
    have base: "Q (t', ml1, mp1, path @ [(x, i)])" for t'
      unfolding Q_def using ml1 same1 b
      by (intro conjI) (simp, simp, rule exI [of _ "[(x, i)]"], simp add: i_def)
    have rec: "Q r" if "f w new t y ml1 mp1 (path @ [(x, i)]) = Some r" for y
    proof -
      from "1"(1) [OF that] ml1 same1
      obtain ext where ext: "fst (snd r) \<le> 17" "\<forall>k<fst (snd r). same_at w new (fst (snd (snd r))) k"
        "snd (snd (snd r)) = (path @ [(x, i)]) @ ext"
        "(fst (snd r), fst (snd (snd r))) = foldl best (ml1, mp1) ext"
        "\<forall>e \<in> set ext. snd e = cmp_len w new (fst e)"
        by blast
      show ?thesis unfolding Q_def using ext b
        by (intro conjI) (simp, simp, rule exI [of _ "(x, i) # ext"], simp add: i_def)
    qed
    have "Q r"
    proof (cases "ml \<le> i \<and> 17 \<le> ml1")
      case True
      then have "r = (LZSS_ReplaceNode t x new, ml1, mp1, path @ [(x, i)])" using E by simp
      then show ?thesis using base by simp
    next
      case c1: False
      show ?thesis
      proof (cases "0 \<le> delta")
        case True
        show ?thesis
        proof (cases "largeChild (t x) = 0")
          case e: True
          then have "r = (insert_large t x new, ml1, mp1, path @ [(x, i)])"
            using E c1 True by simp
          then show ?thesis using base by simp
        next
          case False
          then have "f w new t (largeChild (t x)) ml1 mp1 (path @ [(x, i)]) = Some r"
            using E c1 True by simp
          then show ?thesis by (rule rec)
        qed
      next
        case d: False
        show ?thesis
        proof (cases "smallChild (t x) = 0")
          case e: True
          then have "r = (insert_small t x new, ml1, mp1, path @ [(x, i)])"
            using E c1 d by simp
          then show ?thesis using base by simp
        next
          case False
          then have "f w new t (smallChild (t x)) ml1 mp1 (path @ [(x, i)]) = Some r"
            using E c1 d by simp
          then show ?thesis by (rule rec)
        qed
      qed
    qed
    then show "fst (snd r) \<le> 17 \<and> (\<forall>k<fst (snd r). same_at w new (fst (snd (snd r))) k) \<and>
         (\<exists>ext. ext \<noteq> [] \<and> snd (snd (snd r)) = path @ ext \<and>
             (fst (snd r), fst (snd (snd r))) = foldl best (ml, mp) ext \<and>
             (\<forall>e \<in> set ext. snd e = cmp_len w new (fst e)))"
      by (simp add: Q_def)
  qed
qed

section \<open>The driver maintains the tree invariant and terminates\<close>





lemma InputByte_Nil [simp]: "InputByte [] = (None, [])"
  by (simp add: InputByte_def)

lemma InputByte_Cons [simp]: "InputByte (b # bs) = (Some b, bs)"
  by (simp add: InputByte_def)

lemma MOD_WINDOW_less [simp]: "LZSS_MOD_WINDOW a < 1024"
  by (simp add: MOD_WINDOW_mod)

lemma MOD_WINDOW_add_left: "LZSS_MOD_WINDOW (LZSS_MOD_WINDOW a + b) = LZSS_MOD_WINDOW (a + b)"
  by (simp add: MOD_WINDOW_mod mod_simps)









lemma OutputBit_eq: "OutputBit buf v = buf @ [v \<noteq> 0]"
  by (simp add: OutputBit_def)

lemma OutputBits_eq: "OutputBits buf v n = buf @ OutputBits [] v n"
  by (simp add: OutputBits_def)

lemma OutputBits_length: "length (OutputBits [] v n) = n"
  by (simp add: OutputBits_def)













section \<open>Bit sequences and concrete runs\<close>



lemmas lzss_consts = WINDOW_SIZE_val LOOK_AHEAD_val BREAK_EVEN_val TREE_ROOT_val MOD_WINDOW_mod
  UNUSED_def LZSS_END_OF_STREAM_def zero_window_def

lemmas lzss_eval = LZSS_CompressData_def LZSS_primed_def LZSS_start_def LZSS_fill.simps
  LZSS_main_loop.simps LZSS_main_step_def LZSS_advance_loop.simps LZSS_advance_def
  LZSS_DeleteNode_def LZSS_ContractNode_def LZSS_ReplaceNode_def LZSS_InitTree_def
  LZSS_FindNextNode_def LZSS_FindNextNode_loop.simps LZSS_AddNode_def LZSS_AddNode_loop.simps
  LZSS_compare.simps compare_slots_def unused_node_def Let_def






lemma foldl_best_max:
  assumes "path \<noteq> []"
  shows "fst (foldl best (0, mp) path) = Max (snd ` set path) \<and>
         snd (foldl best (0, mp) path) =
           fst (last (filter (\<lambda>e. snd e = Max (snd ` set path)) path))"
  using assms
proof (induction path rule: rev_induct)
  case Nil
  then show ?case by simp
next
  case (snoc e xs)
  show ?case
  proof (cases "xs = []")
    case True
    then show ?thesis by (simp add: best_def)
  next
    case False
    define M where "M = Max (snd ` set xs)"
    define r where "r = foldl best (0, mp) xs"
    have IH: "fst r = M" "snd r = fst (last (filter (\<lambda>e. snd e = M) xs))"
      using snoc.IH [OF False] by (simp_all add: M_def r_def)
    have st: "foldl best (0, mp) (xs @ [e]) = best r e" by (simp add: r_def)
    have M': "Max (snd ` set (xs @ [e])) = max (snd e) M"
      using False by (simp add: M_def)
    show ?thesis
    proof (cases "M \<le> snd e")
      case True
      then have "max (snd e) M = snd e" by simp
      then show ?thesis using True IH(1) unfolding M' st by (simp add: best_def)
    next
      case lt: False
      then have m: "max (snd e) M = M" by simp
      have "filter (\<lambda>x. snd x = M) (xs @ [e]) = filter (\<lambda>x. snd x = M) xs"
        using lt by simp
      then show ?thesis using lt IH unfolding M' m st by (simp add: best_def)
    qed
  qed
qed

lemma tie_tree_eq:
  "tie_tree = (LZSS_InitTree (\<lambda>_. unused_node) 1)
      (1 := \<lparr>parent = 1024, smallChild = 0, largeChild = 2\<rparr>,
       2 := \<lparr>parent = 1, smallChild = 0, largeChild = 0\<rparr>)"
  by (simp add: tie_tree_def tie_window_def lzss_eval lzss_consts)

lemma tie_run:
  "map_option snd (LZSS_AddNode tie_window tie_tree 3 0) = Some (0, 2, [(1, 0), (2, 0)])"
  by (simp add: tie_tree_eq tie_window_def lzss_eval lzss_consts)




section \<open>States of the main loop\<close>


lemma main_loop_after:
  "LZSS_after k st = Some st' \<Longrightarrow> LZSS_main_loop st = LZSS_main_loop st'"
proof (induction k arbitrary: st)
  case 0
  then show ?case by simp
next
  case (Suc k)
  then show ?case
    by (subst LZSS_main_loop.simps) (auto split: if_splits option.splits)
qed








section \<open>The first lap of the window\<close>

























section \<open>The claims\<close>








text \<open>C8: when \<^verbatim>\<open>LZSS_AddNode\<close> returns for a position other than \<^verbatim>\<open>END_OF_STREAM\<close>, it has
  compared against at least one node; the length recorded for each node of the comparison path
  is its common-prefix length with the new position (capped at \<open>LOOKAHEAD\<close>); match length and
  match position are the result of the update \<open>i \<ge> best_len\<close> (non-strict) along the path; so
  the returned length is the maximum over the path and the returned position is the last node
  of the path that attains it.\<close>

theorem C8_tie_break_last_wins:
  assumes "LZSS_AddNode w t newNode mp = Some (t', len, pos, path)"
    and "newNode \<noteq> LZSS_END_OF_STREAM"
  shows "path \<noteq> [] \<and>
         (\<forall>e \<in> set path. snd e \<le> LZSS_LOOK_AHEAD_SIZE \<and>
            (\<forall>k. k < snd e \<longrightarrow> same_at w newNode (fst e) k) \<and>
            (snd e < LZSS_LOOK_AHEAD_SIZE \<longrightarrow> \<not> same_at w newNode (fst e) (snd e))) \<and>
         (len, pos) = foldl best (0, mp) path \<and>
         len = Max (snd ` set path) \<and>
         pos = fst (last (filter (\<lambda>e. snd e = len) path))"
proof -
  have l: "LZSS_AddNode_loop w newNode t (largeChild (t LZSS_TREE_ROOT)) 0 mp [] =
             Some (t', len, pos, path)"
    using assms by (simp add: LZSS_AddNode_def)
  from AddNode_loop_facts [OF l]
  have p: "path \<noteq> []" "(len, pos) = foldl best (0, mp) path"
    "\<forall>e \<in> set path. snd e = cmp_len w newNode (fst e)"
    by auto
  have c: "\<forall>e \<in> set path. snd e \<le> LZSS_LOOK_AHEAD_SIZE \<and>
            (\<forall>k. k < snd e \<longrightarrow> same_at w newNode (fst e) k) \<and>
            (snd e < LZSS_LOOK_AHEAD_SIZE \<longrightarrow> \<not> same_at w newNode (fst e) (snd e))"
    using p(3) cmp_len_le cmp_len_same cmp_len_max by (auto simp: LOOK_AHEAD_val)
  have "len = Max (snd ` set path) \<and> pos = fst (last (filter (\<lambda>e. snd e = len) path))"
    using foldl_best_max [OF p(1), of mp] p(2) by (metis fst_conv snd_conv)
  then show ?thesis using p c by blast
qed

theorem C8_tie_break_last_wins_witness:
  "LZSS_AddNode tie_window tie_tree 3 0 =
     Some (fst (the (LZSS_AddNode tie_window tie_tree 3 0)), 0, 2, [(1, 0), (2, 0)]) \<and>
   3 \<noteq> LZSS_END_OF_STREAM \<and>
   (0::nat) = Max (snd ` set [(1::nat, 0::nat), (2, 0)]) \<and>
   (2::nat) = fst (last (filter (\<lambda>e. snd e = 0) [(1::nat, 0::nat), (2, 0)]))"
proof -
  obtain a where a: "LZSS_AddNode tie_window tie_tree 3 0 = Some (a, 0, 2, [(1, 0), (2, 0)])"
    using tie_run by (cases "LZSS_AddNode tie_window tie_tree 3 0") auto
  have h1: "LZSS_AddNode tie_window tie_tree 3 0 =
     Some (fst (the (LZSS_AddNode tie_window tie_tree 3 0)), 0, 2, [(1, 0), (2, 0)])"
    by (simp add: a)
  have h2: "3 \<noteq> LZSS_END_OF_STREAM" by (simp add: LZSS_END_OF_STREAM_def)
  show ?thesis using h1 h2 C8_tie_break_last_wins [OF h1 h2] by simp
qed










end
